theory Spec2Isabelle
  imports Main "HOL-Library.Char_ord" "HOL-Library.List_Lexorder" "HOL-Library.Log_Nat"
begin

section \<open>Burp project time analyzer: data model\<close>

text \<open>
  The program \<^verbatim>\<open>burp_time_analyzer.py\<close> groups millisecond timestamps into work
  sessions and sums the session durations per day. Timestamps and all counters are
  Python integers, hence \<^typ>\<open>int\<close> here.

  A session is the dictionary \<^verbatim>\<open>{'start': .., 'end': .., 'requests': ..}\<close> built in
  \<^verbatim>\<open>analyze_sessions\<close>. Its keys become the fields of a record; they carry the prefix
  \<open>s_\<close> because \<open>end\<close> is a keyword of the theory language and \<open>requests\<close> is also a
  key of the per-day dictionary below.
\<close>

record session =
  s_start :: int
  s_end :: int
  s_requests :: int

subsection \<open>\<^verbatim>\<open>analyze_sessions\<close> (lines 62-89)\<close>

text \<open>
  The body of the \<^verbatim>\<open>for ts in timestamps[1:]\<close> loop, with the two variables it
  changes, \<^verbatim>\<open>sessions\<close> and \<^verbatim>\<open>current_session\<close>, as the state. When the test
  succeeds the current dictionary is appended and \<^verbatim>\<open>current_session\<close> is bound to a
  fresh dictionary, so an appended session is never changed again.
\<close>

fun analyze_loop :: "int \<Rightarrow> int list \<Rightarrow> session list \<times> session \<Rightarrow> session list \<times> session" where
  "analyze_loop gap_ms [] (sessions, current_session) = (sessions, current_session)"
| "analyze_loop gap_ms (ts # rest) (sessions, current_session) =
     (if ts - s_end current_session > gap_ms
      then analyze_loop gap_ms rest
             (sessions @ [current_session], \<lparr>s_start = ts, s_end = ts, s_requests = 1\<rparr>)
      else analyze_loop gap_ms rest
             (sessions, current_session\<lparr>s_end := ts,
                                        s_requests := s_requests current_session + 1\<rparr>))"

text \<open>
  The function itself: the empty input returns the empty list before \<^verbatim>\<open>timestamps[0]\<close>
  is read, so the read cannot raise; the last session is appended after the loop.
\<close>

definition analyze_sessions :: "int list \<Rightarrow> int \<Rightarrow> session list" where
  "analyze_sessions timestamps session_gap_minutes =
     (case timestamps of
        [] \<Rightarrow> []
      | t0 # rest \<Rightarrow>
          (let gap_ms = session_gap_minutes * 60 * 1000;
               (sessions, current_session) =
                  analyze_loop gap_ms rest ([], \<lparr>s_start = t0, s_end = t0, s_requests = 1\<rparr>)
           in sessions @ [current_session]))"

subsection \<open>Python's float arithmetic, as far as the program uses it\<close>

text \<open>
  \<^verbatim>\<open>format_duration\<close> and \<^verbatim>\<open>ms_to_datetime\<close> divide an integer by \<^verbatim>\<open>1000\<close> with
  \<^verbatim>\<open>/\<close>, which in Python gives a float (IEEE binary64), and \<^verbatim>\<open>format_duration\<close> goes on
  with \<^verbatim>\<open>//\<close> and \<^verbatim>\<open>%\<close> on that float. A finite float is a rational number, so floats
  are modelled as \<^typ>\<open>rat\<close>, and every operation that rounds applies \<open>fl\<close>, rounding to
  the nearest number with a 53-bit significand, ties to the even significand.

  The exponent range of binary64 is not modelled: there is neither overflow (the source
  raises \<^verbatim>\<open>OverflowError\<close> when the quotient of two integers exceeds about \<open>1.8e308\<close>)
  nor gradual underflow (below about \<open>2.2e-308\<close>). Every statement below about these
  functions is about arguments far inside that range.

  \<open>floor_log2 q\<close> is the \<open>e\<close> with \<open>2^e \<le> q < 2^(e+1)\<close>, for \<open>q > 0\<close>.
\<close>

definition floor_log2 :: "rat \<Rightarrow> int" where
  "floor_log2 q = (if 1 \<le> q then bitlen \<lfloor>q\<rfloor> - 1 else - bitlen (\<lceil>1 / q\<rceil> - 1))"

definition round_half_even :: "rat \<Rightarrow> int" where
  "round_half_even x =
     (let f = \<lfloor>x\<rfloor>; d = x - of_int f
      in if d < 1 / 2 then f else if 1 / 2 < d then f + 1 else if even f then f else f + 1)"

definition fl :: "rat \<Rightarrow> rat" where
  "fl q = (if q = 0 then 0
           else (let e = floor_log2 \<bar>q\<bar> - 52
                 in of_int (round_half_even (q / 2 powi e)) * 2 powi e))"

text \<open>\<^verbatim>\<open>a / b\<close> on two integers: the quotient, correctly rounded.\<close>

definition float_truediv :: "int \<Rightarrow> int \<Rightarrow> rat" where
  "float_truediv a b = fl (of_int a / of_int b)"

text \<open>
  C's \<^verbatim>\<open>fmod\<close>, which CPython calls for \<^verbatim>\<open>//\<close> and \<^verbatim>\<open>%\<close> on floats: the remainder of
  the division truncated towards zero. It is exact.
\<close>

definition fmod :: "rat \<Rightarrow> rat \<Rightarrow> rat" where
  "fmod vx wx = vx - wx * of_int (let r = vx / wx in if 0 \<le> r then \<lfloor>r\<rfloor> else \<lceil>r\<rceil>)"

text \<open>
  \<^verbatim>\<open>vx // wx\<close> on floats, for \<open>wx \<noteq> 0\<close>, following CPython's \<^verbatim>\<open>float_divmod\<close>: the
  quotient is computed from \<^verbatim>\<open>vx - mod\<close>, the remainder takes the sign of the divisor,
  and the quotient is snapped to the nearest integral value.
\<close>

definition float_floordiv :: "rat \<Rightarrow> rat \<Rightarrow> rat" where
  "float_floordiv vx wx =
     (let mod0 = fmod vx wx;
          div0 = fl (fl (vx - mod0) / wx);
          div1 = (if mod0 \<noteq> 0 \<and> ((wx < 0) \<noteq> (mod0 < 0)) then fl (div0 - 1) else div0)
      in if div1 \<noteq> 0
         then (let floordiv = of_int \<lfloor>div1\<rfloor>
               in if fl (div1 - floordiv) > 1 / 2 then fl (floordiv + 1) else floordiv)
         else 0)"

text \<open>\<^verbatim>\<open>vx % wx\<close> on floats, for \<open>wx \<noteq> 0\<close> (CPython's \<^verbatim>\<open>float_rem\<close>).\<close>

definition float_rem :: "rat \<Rightarrow> rat \<Rightarrow> rat" where
  "float_rem vx wx =
     (let mod0 = fmod vx wx
      in if mod0 \<noteq> 0 \<and> ((wx < 0) \<noteq> (mod0 < 0)) then fl (mod0 + wx) else mod0)"

text \<open>\<^verbatim>\<open>int(x)\<close> on a float truncates towards zero.\<close>

definition int_of_float :: "rat \<Rightarrow> int" where
  "int_of_float x = (if 0 \<le> x then \<lfloor>x\<rfloor> else \<lceil>x\<rceil>)"

subsection \<open>\<^verbatim>\<open>format_duration\<close> (lines 91-105)\<close>

text \<open>The decimal text of an integer, as an f-string writes it.\<close>

function str_nat :: "nat \<Rightarrow> string" where
  "str_nat n = (if n < 10 then [''0123456789'' ! n]
                else str_nat (n div 10) @ [''0123456789'' ! (n mod 10)])"
  by pat_completeness auto
termination
  by (relation "measure (\<lambda>n. n)") auto

declare str_nat.simps [simp del]

definition str_int :: "int \<Rightarrow> string" where
  "str_int i = (if i < 0 then CHR ''-'' # str_nat (nat (- i)) else str_nat (nat i))"

definition format_duration :: "int \<Rightarrow> string" where
  "format_duration ms =
     (if ms < 0 then ''0s''
      else (let seconds = float_truediv ms 1000;
                hours = int_of_float (float_floordiv seconds 3600);
                minutes = int_of_float (float_floordiv (float_rem seconds 3600) 60);
                secs = int_of_float (float_rem seconds 60)
            in if hours > 0 then str_int hours @ ''h '' @ str_int minutes @ ''m''
               else if minutes > 0 then str_int minutes @ ''m '' @ str_int secs @ ''s''
               else str_int secs @ ''s''))"

subsection \<open>\<^verbatim>\<open>ms_to_datetime\<close> (lines 107-109)\<close>

text \<open>
  \<^verbatim>\<open>datetime.fromtimestamp\<close> and \<^verbatim>\<open>strftime\<close> belong to the standard library and depend
  on the time zone of the process. They are parameters of the model: \<open>fromtimestamp\<close>
  takes the float and gives a value of a type \<open>'dt\<close> of datetimes, and
  \<open>strftime dt fmt\<close> is the text of \<^verbatim>\<open>dt.strftime(fmt)\<close>. Both are taken to return: on the
  13-digit timestamps that \<^verbatim>\<open>extract_timestamps\<close> yields they do.
\<close>

definition ms_to_datetime :: "(rat \<Rightarrow> 'dt) \<Rightarrow> int \<Rightarrow> 'dt" where
  "ms_to_datetime fromtimestamp ms = fromtimestamp (float_truediv ms 1000)"

subsection \<open>\<^verbatim>\<open>analyze_burp_project\<close> (lines 111-202)\<close>

text \<open>
  The values of \<^verbatim>\<open>daily_work\<close>, a \<^verbatim>\<open>defaultdict\<close> whose default is
  \<^verbatim>\<open>{'time': 0, 'sessions': 0, 'requests': 0}\<close>. The dictionary itself is a list of
  pairs of a key and a value, in the order in which the keys were inserted, which is
  the order in which a Python dictionary keeps them.
\<close>

record bucket =
  d_time :: int
  d_sessions :: int
  d_requests :: int

text \<open>
  The three statements \<^verbatim>\<open>daily_work[day_key][..] += ..\<close> of lines 159-161: the first
  one inserts the default value when the key is new.
\<close>

fun daily_add :: "string \<Rightarrow> int \<Rightarrow> int \<Rightarrow> (string \<times> bucket) list \<Rightarrow> (string \<times> bucket) list" where
  "daily_add day_key duration reqs [] =
     [(day_key, \<lparr>d_time = 0 + duration, d_sessions = 0 + 1, d_requests = 0 + reqs\<rparr>)]"
| "daily_add day_key duration reqs ((k, d) # daily_work) =
     (if k = day_key
      then (k, \<lparr>d_time = d_time d + duration, d_sessions = d_sessions d + 1,
                d_requests = d_requests d + reqs\<rparr>) # daily_work
      else (k, d) # daily_add day_key duration reqs daily_work)"

text \<open>
  What the function prints: one value for each call of \<^verbatim>\<open>print\<close>, or for a group of
  consecutive calls (the banner, the time range, the summary block), with the values
  that the calls interpolate; padding and fixed text are left out. The lines that
  \<^verbatim>\<open>extract_timestamps\<close> prints are not part of it.
\<close>

datatype printed =
    Banner string
  | Extracting
  | No_timestamps_found
  | Found int
  | Time_range string string string
  | Work_sessions int int
  | Session_table_header
  | Session_row int string string string string int
  | More_sessions int
  | Summary string int string int
  | Day_table_header
  | Day_row string string int int
  | Total_row string int int
  | Estimated_time rat int

fun is_table_line :: "printed \<Rightarrow> bool" where
  "is_table_line Session_table_header = True"
| "is_table_line (Session_row i date start_hm end_hm duration reqs) = True"
| "is_table_line (More_sessions n) = True"
| "is_table_line Day_table_header = True"
| "is_table_line (Day_row day time n reqs) = True"
| "is_table_line (Total_row time n reqs) = True"
| "is_table_line other = False"

text \<open>The returned dictionary (lines 197-202).\<close>

record summary =
  total_hours :: rat
  total_days :: int
  sessions :: int
  requests :: int

text \<open>
  Lines 151-155: the duration of a session, raised to five minutes when it is shorter.
\<close>

definition effective_duration :: "session \<Rightarrow> int" where
  "effective_duration session =
     (let duration = s_end session - s_start session
      in if duration < 300000 then 300000 else duration)"

text \<open>
  The body of the loop over \<^verbatim>\<open>enumerate(sessions, 1)\<close> (lines 148-169). Its state is
  \<^verbatim>\<open>total_work_time\<close>, \<^verbatim>\<open>daily_work\<close> and what has been printed; \<open>n\<close> is
  \<^verbatim>\<open>len(sessions)\<close> and \<open>i\<close> the index that \<^verbatim>\<open>enumerate\<close> gives.
\<close>

definition session_body ::
  "(rat \<Rightarrow> 'dt) \<Rightarrow> ('dt \<Rightarrow> string \<Rightarrow> string) \<Rightarrow> nat \<Rightarrow> nat \<Rightarrow> session \<Rightarrow>
   int \<times> (string \<times> bucket) list \<times> printed list \<Rightarrow> int \<times> (string \<times> bucket) list \<times> printed list" where
  "session_body fromtimestamp strftime n i session st =
     (case st of (total_work_time, daily_work, out) \<Rightarrow>
        (let start_dt = ms_to_datetime fromtimestamp (s_start session);
             end_dt = ms_to_datetime fromtimestamp (s_end session);
             duration = effective_duration session;
             day_key = strftime start_dt ''%Y-%m-%d''
         in (total_work_time + duration,
             daily_add day_key duration (s_requests session) daily_work,
             out @ (if i \<le> 30
                    then [Session_row (int i) (strftime start_dt ''%Y-%m-%d'')
                            (strftime start_dt ''%H:%M'') (strftime end_dt ''%H:%M'')
                            (format_duration duration) (s_requests session)]
                    else if i = 31 then [More_sessions (int n - 30)]
                    else []))))"

fun session_loop ::
  "(rat \<Rightarrow> 'dt) \<Rightarrow> ('dt \<Rightarrow> string \<Rightarrow> string) \<Rightarrow> nat \<Rightarrow> nat \<Rightarrow> session list \<Rightarrow>
   int \<times> (string \<times> bucket) list \<times> printed list \<Rightarrow> int \<times> (string \<times> bucket) list \<times> printed list" where
  "session_loop fromtimestamp strftime n i [] st = st"
| "session_loop fromtimestamp strftime n i (session # rest) st =
     session_loop fromtimestamp strftime n (i + 1) rest
       (session_body fromtimestamp strftime n i session st)"

text \<open>\<^verbatim>\<open>burp_file.split('/')[-1]\<close>: the text after the last slash.\<close>

definition basename :: "string \<Rightarrow> string" where
  "basename burp_file = rev (takeWhile (\<lambda>c. c \<noteq> CHR ''/'') (rev burp_file))"

text \<open>
  The function. Its argument \<open>timestamps\<close> is what \<^verbatim>\<open>extract_timestamps(burp_file)\<close>
  returned (that function reads the file through a shell pipeline and is not
  modelled). The result is what was printed and the returned value, \<open>None\<close> or the
  summary. The days are printed in the order of \<^verbatim>\<open>sorted(daily_work.keys())\<close>, each
  with the value stored under it: the keys of a dictionary are distinct, so these are
  the entries of \<^verbatim>\<open>daily_work\<close> sorted by key.
\<close>

definition analyze_burp_project ::
  "(rat \<Rightarrow> 'dt) \<Rightarrow> ('dt \<Rightarrow> string \<Rightarrow> string) \<Rightarrow> string \<Rightarrow> int list \<Rightarrow> int \<Rightarrow>
   printed list \<times> summary option" where
  "analyze_burp_project fromtimestamp strftime burp_file timestamps session_gap =
     (let out = [Banner (basename burp_file), Extracting]
      in if timestamps = [] then (out @ [No_timestamps_found], None)
         else
          (let out = out @ [Found (int (length timestamps))];
               first_ts = hd timestamps;
               last_ts = last timestamps;
               out = out @ [Time_range
                       (strftime (ms_to_datetime fromtimestamp first_ts) ''%Y-%m-%d %H:%M:%S'')
                       (strftime (ms_to_datetime fromtimestamp last_ts) ''%Y-%m-%d %H:%M:%S'')
                       (format_duration (last_ts - first_ts))];
               sessions = analyze_sessions timestamps session_gap;
               out = out @ [Work_sessions session_gap (int (length sessions)),
                            Session_table_header];
               (total_work_time, daily_work, out) =
                  session_loop fromtimestamp strftime (length sessions) 1 sessions (0, [], out);
               out = out @ [Summary (format_duration total_work_time) (int (length sessions))
                              (format_duration
                                 (total_work_time div max 1 (int (length sessions))))
                              (int (length timestamps)),
                            Day_table_header];
               out = out @ map (\<lambda>(day, d). Day_row day (format_duration (d_time d))
                                                (d_sessions d) (d_requests d))
                               (sort_key fst daily_work);
               total_hours = float_truediv total_work_time (1000 * 3600);
               total_days = int (length daily_work);
               out = out @ [Total_row (format_duration total_work_time) (int (length sessions))
                              (int (length timestamps)),
                            Estimated_time total_hours total_days]
           in (out, Some \<lparr>total_hours = total_hours, total_days = total_days,
                           sessions = int (length sessions),
                           requests = int (length timestamps)\<rparr>)))"

subsection \<open>Auxiliary notions for stating the properties\<close>

text \<open>
  \<open>flush gap_ms xs c\<close> is what the loop followed by the final append produces when it
  starts with no finished session and with current session \<open>c\<close>.
\<close>

definition flush :: "int \<Rightarrow> int list \<Rightarrow> session \<Rightarrow> session list" where
  "flush gap_ms xs c = (case analyze_loop gap_ms xs ([], c) of (ss, c') \<Rightarrow> ss @ [c'])"

text \<open>
  The sessions do not store their member timestamps, only how many there are. Since the
  loop consumes the input from left to right, the members of the first session are the
  first \<open>requests\<close> timestamps of the input, those of the second session the next
  \<open>requests\<close> ones, and so on. \<open>session_members T ss\<close> cuts \<open>T\<close> into these blocks,
  and \<open>session_of_members m\<close> is the session a non-empty block \<open>m\<close> stands for.
\<close>

fun session_members :: "int list \<Rightarrow> session list \<Rightarrow> int list list" where
  "session_members T [] = []"
| "session_members T (s # ss) =
     take (nat (s_requests s)) T # session_members (drop (nat (s_requests s)) T) ss"

definition session_of_members :: "int list \<Rightarrow> session" where
  "session_of_members m = \<lparr>s_start = hd m, s_end = last m, s_requests = int (length m)\<rparr>"

text \<open>
  The key under which the loop files a session: the date of its start
  (\<^verbatim>\<open>start_dt.strftime('%Y-%m-%d')\<close>, line 158).
\<close>

definition day_key :: "(rat \<Rightarrow> 'dt) \<Rightarrow> ('dt \<Rightarrow> string \<Rightarrow> string) \<Rightarrow> session \<Rightarrow> string" where
  "day_key fromtimestamp strftime session =
     strftime (ms_to_datetime fromtimestamp (s_start session)) ''%Y-%m-%d''"

text \<open>
  Reading \<^verbatim>\<open>daily_work\<close>: the value stored under a day, and the default value of the
  \<^verbatim>\<open>defaultdict\<close> for a day that has no entry.
\<close>

definition day_bucket :: "(string \<times> bucket) list \<Rightarrow> string \<Rightarrow> bucket" where
  "day_bucket daily_work day =
     (case map_of daily_work day of
        None \<Rightarrow> \<lparr>d_time = 0, d_sessions = 0, d_requests = 0\<rparr>
      | Some d \<Rightarrow> d)"

text \<open>
  What the loop prints for the session with index \<open>i\<close> (lines 164-169), with the
  duration column written as the formatted maximum of the raw duration and five
  minutes.
\<close>

definition session_lines ::
  "(rat \<Rightarrow> 'dt) \<Rightarrow> ('dt \<Rightarrow> string \<Rightarrow> string) \<Rightarrow> nat \<Rightarrow> nat \<Rightarrow> session \<Rightarrow> printed list" where
  "session_lines fromtimestamp strftime n i session =
     (if i \<le> 30
      then [Session_row (int i)
              (strftime (ms_to_datetime fromtimestamp (s_start session)) ''%Y-%m-%d'')
              (strftime (ms_to_datetime fromtimestamp (s_start session)) ''%H:%M'')
              (strftime (ms_to_datetime fromtimestamp (s_end session)) ''%H:%M'')
              (format_duration (max (s_end session - s_start session) 300000))
              (s_requests session)]
      else if i = 31 then [More_sessions (int n - 30)]
      else [])"

text \<open>
  The formatting as the specification words it, for comparison with \<open>format_duration\<close>:
  negative values give the zero label; otherwise hours and minutes from one hour on,
  minutes and seconds from one minute on, else seconds only, every component obtained by
  integer division, that is, truncated.
\<close>

definition format_truncated :: "int \<Rightarrow> string" where
  "format_truncated ms =
     (if ms < 0 then ''0s''
      else if 3600000 \<le> ms
        then str_int (ms div 3600000) @ ''h '' @ str_int (ms mod 3600000 div 60000) @ ''m''
      else if 60000 \<le> ms
        then str_int (ms div 60000) @ ''m '' @ str_int (ms mod 60000 div 1000) @ ''s''
      else str_int (ms div 1000) @ ''s'')"

section \<open>Properties of the clustering\<close>

subsection \<open>The loop as a function of the current session\<close>

lemma analyze_loop_prefix:
  "analyze_loop g xs (ss, c) =
     (ss @ fst (analyze_loop g xs ([], c)), snd (analyze_loop g xs ([], c)))"
proof (induction xs arbitrary: ss c)
  case Nil
  show ?case by simp
next
  case (Cons x xs)
  show ?case
  proof (cases "x - s_end c > g")
    case True
    have "analyze_loop g (x # xs) (ss, c) =
            analyze_loop g xs (ss @ [c], \<lparr>s_start = x, s_end = x, s_requests = 1\<rparr>)"
      using True by simp
    also have "\<dots> = ((ss @ [c]) @ fst (analyze_loop g xs ([], \<lparr>s_start = x, s_end = x, s_requests = 1\<rparr>)),
                     snd (analyze_loop g xs ([], \<lparr>s_start = x, s_end = x, s_requests = 1\<rparr>)))"
      by (rule Cons.IH)
    finally have l: "analyze_loop g (x # xs) (ss, c) =
        (ss @ c # fst (analyze_loop g xs ([], \<lparr>s_start = x, s_end = x, s_requests = 1\<rparr>)),
         snd (analyze_loop g xs ([], \<lparr>s_start = x, s_end = x, s_requests = 1\<rparr>)))"
      by simp
    have "analyze_loop g (x # xs) ([], c) =
            analyze_loop g xs ([] @ [c], \<lparr>s_start = x, s_end = x, s_requests = 1\<rparr>)"
      using True by simp
    also have "\<dots> = (([] @ [c]) @ fst (analyze_loop g xs ([], \<lparr>s_start = x, s_end = x, s_requests = 1\<rparr>)),
                     snd (analyze_loop g xs ([], \<lparr>s_start = x, s_end = x, s_requests = 1\<rparr>)))"
      by (rule Cons.IH)
    finally have r: "analyze_loop g (x # xs) ([], c) =
        (c # fst (analyze_loop g xs ([], \<lparr>s_start = x, s_end = x, s_requests = 1\<rparr>)),
         snd (analyze_loop g xs ([], \<lparr>s_start = x, s_end = x, s_requests = 1\<rparr>)))"
      by simp
    show ?thesis unfolding l r by simp
  next
    case False
    then show ?thesis using Cons.IH [of ss] by simp
  qed
qed

lemma flush_Nil [simp]: "flush g [] c = [c]"
  by (simp add: flush_def)

lemma flush_Cons:
  "flush g (x # xs) c =
     (if x - s_end c > g
      then c # flush g xs \<lparr>s_start = x, s_end = x, s_requests = 1\<rparr>
      else flush g xs (c\<lparr>s_end := x, s_requests := s_requests c + 1\<rparr>))"
proof (cases "x - s_end c > g")
  case True
  have "analyze_loop g (x # xs) ([], c) =
          analyze_loop g xs ([c], \<lparr>s_start = x, s_end = x, s_requests = 1\<rparr>)"
    using True by simp
  then show ?thesis
    using True analyze_loop_prefix [of g xs "[c]" "\<lparr>s_start = x, s_end = x, s_requests = 1\<rparr>"]
    by (simp add: flush_def split: prod.splits)
next
  case False
  then show ?thesis by (simp add: flush_def)
qed

lemma analyze_sessions_Nil [simp]: "analyze_sessions [] G = []"
  by (simp add: analyze_sessions_def)

lemma analyze_sessions_Cons:
  "analyze_sessions (t # ts) G = flush (G * 60 * 1000) ts \<lparr>s_start = t, s_end = t, s_requests = 1\<rparr>"
  by (simp add: analyze_sessions_def flush_def split: prod.splits)

lemma flush_not_Nil: "flush g xs c \<noteq> []"
  by (induction xs arbitrary: c) (simp_all add: flush_Cons)

lemma flush_requests:
  "sum_list (map s_requests (flush g xs c)) = s_requests c + int (length xs)"
  by (induction xs arbitrary: c) (simp_all add: flush_Cons)

lemma flush_hd_start: "s_start (hd (flush g xs c)) = s_start c"
  by (induction xs arbitrary: c) (simp_all add: flush_Cons)

lemma flush_last_end: "s_end (last (flush g xs c)) = last (s_end c # xs)"
  by (induction xs arbitrary: c) (simp_all add: flush_Cons flush_not_Nil)

lemma flush_gaps:
  "successively (\<lambda>a b. s_start b - s_end a > g) (flush g xs c)"
proof (induction xs arbitrary: c)
  case Nil
  show ?case by simp
next
  case (Cons x xs)
  show ?case
  proof (cases "x - s_end c > g")
    case True
    let ?n = "\<lparr>s_start = x, s_end = x, s_requests = 1\<rparr>"
    have "s_start (hd (flush g xs ?n)) - s_end c > g"
      using True by (simp add: flush_hd_start)
    then show ?thesis
      using True Cons.IH [of ?n] by (simp add: flush_Cons successively_Cons)
  next
    case False
    then show ?thesis using Cons.IH by (simp add: flush_Cons)
  qed
qed

lemma flush_start_le_end:
  "sorted (s_end c # xs) \<Longrightarrow> s_start c \<le> s_end c \<Longrightarrow>
   \<forall>s \<in> set (flush g xs c). s_start s \<le> s_end s"
proof (induction xs arbitrary: c)
  case Nil
  then show ?case by simp
next
  case (Cons x xs)
  have sx: "sorted (x # xs)" and le: "s_end c \<le> x"
    using Cons.prems(1) by simp_all
  show ?case
  proof (cases "x - s_end c > g")
    case True
    then show ?thesis
      using Cons.IH [of "\<lparr>s_start = x, s_end = x, s_requests = 1\<rparr>"] sx Cons.prems(2)
      by (simp add: flush_Cons)
  next
    case False
    then show ?thesis
      using Cons.IH [of "c\<lparr>s_end := x, s_requests := s_requests c + 1\<rparr>"] sx le Cons.prems(2)
      by (simp add: flush_Cons)
  qed
qed

lemma gaps_imp_disjoint:
  assumes "successively (\<lambda>a b. s_start b - s_end a > g) ss"
    and "\<forall>s \<in> set ss. s_start s \<le> s_end s" and "0 \<le> g"
  shows "sorted_wrt (\<lambda>a b. s_end a < s_start b) ss"
proof -
  let ?R = "\<lambda>a b. s_start a \<le> s_end a \<and> s_end a < s_start b \<and> s_start b \<le> s_end b"
  have "successively ?R ss"
    using assms by (induction ss) (auto simp: successively_Cons)
  moreover have "transp ?R"
    by (auto simp: transp_def)
  ultimately have "sorted_wrt ?R ss"
    using successively_conv_sorted_wrt [of ?R ss] by blast
  then show ?thesis
    using sorted_wrt_mono_rel [of ss ?R "\<lambda>a b. s_end a < s_start b"] by blast
qed

lemma analyze_loop_append:
  "analyze_loop g (xs @ ys) st = analyze_loop g ys (analyze_loop g xs st)"
proof (induction xs arbitrary: st)
  case Nil
  show ?case by (cases st) simp
next
  case (Cons x xs)
  obtain ss c where st: "st = (ss, c)" by (cases st)
  show ?case unfolding st using Cons.IH by simp
qed

lemma flush_snoc:
  "flush g (xs @ [t]) c =
     (if t - s_end (last (flush g xs c)) > g
      then flush g xs c @ [\<lparr>s_start = t, s_end = t, s_requests = 1\<rparr>]
      else butlast (flush g xs c) @
           [(last (flush g xs c))\<lparr>s_end := t, s_requests := s_requests (last (flush g xs c)) + 1\<rparr>])"
proof -
  obtain ss c' where r: "analyze_loop g xs ([], c) = (ss, c')"
    by (cases "analyze_loop g xs ([], c)")
  have f: "flush g xs c = ss @ [c']"
    by (simp add: flush_def r)
  have "analyze_loop g (xs @ [t]) ([], c) = analyze_loop g [t] (ss, c')"
    by (simp add: analyze_loop_append r)
  then show ?thesis
    unfolding f by (simp add: flush_def)
qed

lemma flush_chained:
  "successively (\<lambda>a b. b - a \<le> g) (s_end c # xs) \<Longrightarrow>
   flush g xs c = [c\<lparr>s_end := last (s_end c # xs), s_requests := s_requests c + int (length xs)\<rparr>]"
proof (induction xs arbitrary: c)
  case Nil
  show ?case by simp
next
  case (Cons x xs)
  have le: "\<not> x - s_end c > g" and rest: "successively (\<lambda>a b. b - a \<le> g) (x # xs)"
    using Cons.prems by simp_all
  have "flush g (x # xs) c = flush g xs (c\<lparr>s_end := x, s_requests := s_requests c + 1\<rparr>)"
    using le by (simp add: flush_Cons)
  also have "\<dots> = [(c\<lparr>s_end := x, s_requests := s_requests c + 1\<rparr>)
                     \<lparr>s_end := last (x # xs), s_requests := s_requests c + 1 + int (length xs)\<rparr>]"
    using Cons.IH [of "c\<lparr>s_end := x, s_requests := s_requests c + 1\<rparr>"] rest by simp
  finally show ?case by simp
qed

lemma flush_separated:
  "successively (\<lambda>a b. b - a > g) (s_end c # xs) \<Longrightarrow>
   flush g xs c = c # map (\<lambda>t. \<lparr>s_start = t, s_end = t, s_requests = 1\<rparr>) xs"
proof (induction xs arbitrary: c)
  case Nil
  show ?case by simp
next
  case (Cons x xs)
  have gt: "x - s_end c > g" and rest: "successively (\<lambda>a b. b - a > g) (x # xs)"
    using Cons.prems by simp_all
  show ?case
    using gt Cons.IH [of "\<lparr>s_start = x, s_end = x, s_requests = 1\<rparr>"] rest
    by (simp add: flush_Cons)
qed

lemma sorted_hd_Min: "sorted (T::int list) \<Longrightarrow> T \<noteq> [] \<Longrightarrow> hd T = Min (set T)"
  by (cases T) (auto simp: Min_insert2 intro!: Min_eqI [symmetric])

lemma sorted_le_last: "sorted (T::int list) \<Longrightarrow> x \<in> set T \<Longrightarrow> x \<le> last T"
  by (induction T) auto

lemma sorted_last_Max: "sorted (T::int list) \<Longrightarrow> T \<noteq> [] \<Longrightarrow> last T = Max (set T)"
  by (intro Max_eqI [symmetric]) (auto simp: sorted_le_last)

lemma session_of_members_single:
  "session_of_members [x] = \<lparr>s_start = x, s_end = x, s_requests = 1\<rparr>"
  by (simp add: session_of_members_def)

lemma session_of_members_snoc:
  "m \<noteq> [] \<Longrightarrow>
   session_of_members (m @ [x]) =
     (session_of_members m)\<lparr>s_end := x, s_requests := s_requests (session_of_members m) + 1\<rparr>"
  by (simp add: session_of_members_def)

lemma session_of_members_fields:
  "s_end (session_of_members m) = last m" "nat (s_requests (session_of_members m)) = length m"
  by (simp_all add: session_of_members_def)

lemma members_of_flush:
  "m \<noteq> [] \<Longrightarrow>
   map session_of_members (session_members (m @ xs) (flush g xs (session_of_members m)))
     = flush g xs (session_of_members m)"
proof (induction xs arbitrary: m)
  case Nil
  then show ?case by (simp add: session_of_members_fields)
next
  case (Cons x xs)
  show ?case
  proof (cases "x - last m > g")
    case True
    have "map session_of_members (session_members ([x] @ xs) (flush g xs (session_of_members [x])))
            = flush g xs (session_of_members [x])"
      by (rule Cons.IH) simp
    then show ?thesis
      using True
      by (simp add: flush_Cons session_of_members_fields session_of_members_single [symmetric])
  next
    case False
    have "map session_of_members (session_members ((m @ [x]) @ xs) (flush g xs (session_of_members (m @ [x]))))
            = flush g xs (session_of_members (m @ [x]))"
      by (rule Cons.IH) simp
    then show ?thesis
      using False Cons.prems
      by (simp add: flush_Cons session_of_members_fields session_of_members_snoc)
  qed
qed

lemma concat_session_members:
  "\<forall>s \<in> set ss. 0 \<le> s_requests s \<Longrightarrow>
   concat (session_members T ss) = take (nat (sum_list (map s_requests ss))) T"
proof (induction ss arbitrary: T)
  case Nil
  show ?case by simp
next
  case (Cons s ss)
  have "concat (session_members T (s # ss)) =
          take (nat (s_requests s)) T @ take (nat (sum_list (map s_requests ss))) (drop (nat (s_requests s)) T)"
    using Cons by simp
  also have "\<dots> = take (nat (s_requests s) + nat (sum_list (map s_requests ss))) T"
    by (simp add: take_add)
  also have "nat (s_requests s) + nat (sum_list (map s_requests ss)) = nat (sum_list (map s_requests (s # ss)))"
  proof -
    have "0 \<le> sum_list (map s_requests ss)"
      using Cons.prems by (intro sum_list_nonneg) auto
    moreover have "0 \<le> s_requests s"
      using Cons.prems by simp
    ultimately show ?thesis
      by (simp add: nat_add_distrib)
  qed
  finally show ?case .
qed

lemma flush_requests_pos:
  "0 < s_requests c \<Longrightarrow> \<forall>s \<in> set (flush g xs c). 0 < s_requests s"
proof (induction xs arbitrary: c)
  case Nil
  then show ?case by simp
next
  case (Cons x xs)
  show ?case
  proof (cases "x - s_end c > g")
    case True
    then show ?thesis
      using Cons.IH [of "\<lparr>s_start = x, s_end = x, s_requests = 1\<rparr>"] Cons.prems
      by (simp add: flush_Cons)
  next
    case False
    then show ?thesis
      using Cons.IH [of "c\<lparr>s_end := x, s_requests := s_requests c + 1\<rparr>"] Cons.prems
      by (simp add: flush_Cons)
  qed
qed

subsection \<open>Sessions of a sorted input\<close>

text \<open>
  C1. For a non-decreasing list of timestamps \<open>T\<close> and a gap threshold \<open>G > 0\<close> (minutes),
  the sessions returned by \<open>analyze_sessions T G\<close> are well-formed intervals
  (\<open>start \<le> end\<close>) that are pairwise disjoint in time (an earlier session ends before a
  later one starts), they are ordered by start, their \<open>requests\<close> fields sum to the
  length of \<open>T\<close>, and between two adjacent sessions the start of the later one minus the
  end of the earlier one strictly exceeds \<open>G\<close> converted to milliseconds.
\<close>

theorem analyze_sessions_disjoint_ordered:
  assumes "sorted T" and "0 < G"
  shows "(\<forall>s \<in> set (analyze_sessions T G). s_start s \<le> s_end s)
       \<and> (\<forall>i j. i < j \<and> j < length (analyze_sessions T G) \<longrightarrow>
              s_end (analyze_sessions T G ! i) < s_start (analyze_sessions T G ! j))
       \<and> (\<forall>i j. i < j \<and> j < length (analyze_sessions T G) \<longrightarrow>
              s_start (analyze_sessions T G ! i) < s_start (analyze_sessions T G ! j))
       \<and> sum_list (map s_requests (analyze_sessions T G)) = int (length T)
       \<and> (\<forall>i. Suc i < length (analyze_sessions T G) \<longrightarrow>
              s_start (analyze_sessions T G ! Suc i) - s_end (analyze_sessions T G ! i)
                > G * 60 * 1000)"
proof (cases T)
  case Nil
  then show ?thesis by simp
next
  case (Cons t ts)
  let ?g = "G * 60 * 1000"
  let ?c = "\<lparr>s_start = t, s_end = t, s_requests = 1\<rparr>"
  let ?ss = "analyze_sessions T G"
  have ss: "?ss = flush ?g ts ?c"
    using Cons by (simp add: analyze_sessions_Cons)
  have g0: "0 \<le> ?g"
    using assms(2) by simp
  have wf: "\<forall>s \<in> set ?ss. s_start s \<le> s_end s"
    unfolding ss using flush_start_le_end [of ?c ts ?g] assms(1) Cons by simp
  have gaps: "successively (\<lambda>a b. s_start b - s_end a > ?g) ?ss"
    unfolding ss by (rule flush_gaps)
  have disj: "sorted_wrt (\<lambda>a b. s_end a < s_start b) ?ss"
    using gaps wf g0 by (rule gaps_imp_disjoint)
  have d: "s_end (?ss ! i) < s_start (?ss ! j)" if "i < j" "j < length ?ss" for i j
    using disj that by (simp add: sorted_wrt_iff_nth_less)
  have o: "s_start (?ss ! i) < s_start (?ss ! j)" if "i < j" "j < length ?ss" for i j
  proof -
    have "?ss ! i \<in> set ?ss"
      using that by simp
    then have "s_start (?ss ! i) \<le> s_end (?ss ! i)"
      using wf by blast
    then show ?thesis
      using d [OF that] by simp
  qed
  have cnt: "sum_list (map s_requests ?ss) = int (length T)"
    unfolding ss using Cons by (simp add: flush_requests)
  have adj: "s_start (?ss ! Suc i) - s_end (?ss ! i) > ?g" if "Suc i < length ?ss" for i
    using successively_nth [OF gaps that] .
  show ?thesis
    using wf d o cnt adj by blast
qed

theorem analyze_sessions_disjoint_ordered_witness:
  "sorted [1770000000000, 1770000060000, 1770003600000 :: int] \<and> (0::int) < 30
   \<and> analyze_sessions [1770000000000, 1770000060000, 1770003600000] 30 =
       [\<lparr>s_start = 1770000000000, s_end = 1770000060000, s_requests = 2\<rparr>,
        \<lparr>s_start = 1770003600000, s_end = 1770003600000, s_requests = 1\<rparr>]
   \<and> sum_list (map s_requests (analyze_sessions [1770000000000, 1770000060000, 1770003600000] 30))
       = int (length [1770000000000, 1770000060000, 1770003600000 :: int])
   \<and> s_end (analyze_sessions [1770000000000, 1770000060000, 1770003600000] 30 ! 0)
       < s_start (analyze_sessions [1770000000000, 1770000060000, 1770003600000] 30 ! 1)
   \<and> s_start (analyze_sessions [1770000000000, 1770000060000, 1770003600000] 30 ! Suc 0)
         - s_end (analyze_sessions [1770000000000, 1770000060000, 1770003600000] 30 ! 0)
       > 30 * 60 * 1000"
proof -
  let ?T = "[1770000000000, 1770000060000, 1770003600000 :: int]"
  have h1: "sorted ?T"
    by simp
  have h2: "(0::int) < 30"
    by simp
  have v: "analyze_sessions ?T 30 =
       [\<lparr>s_start = 1770000000000, s_end = 1770000060000, s_requests = 2\<rparr>,
        \<lparr>s_start = 1770003600000, s_end = 1770003600000, s_requests = 1\<rparr>]"
    by (simp add: analyze_sessions_def)
  have len: "length (analyze_sessions ?T 30) = 2"
    by (simp add: v)
  note t = analyze_sessions_disjoint_ordered [OF h1 h2]
  have cnt: "sum_list (map s_requests (analyze_sessions ?T 30)) = int (length ?T)"
    using t by blast
  have "0 < (1::nat) \<and> 1 < length (analyze_sessions ?T 30)"
    by (simp add: len)
  then have d: "s_end (analyze_sessions ?T 30 ! 0) < s_start (analyze_sessions ?T 30 ! 1)"
    using t by blast
  have "Suc 0 < length (analyze_sessions ?T 30)"
    by (simp add: len)
  then have adj: "s_start (analyze_sessions ?T 30 ! Suc 0) - s_end (analyze_sessions ?T 30 ! 0)
                > 30 * 60 * 1000"
    using t by blast
  show ?thesis
    using h1 h2 v cnt d adj by blast
qed

subsection \<open>The split test\<close>

text \<open>
  C2. The split test is a strict greater-than. When a non-empty input \<open>T\<close> is extended
  by one more timestamp \<open>t\<close>, the current session at that moment ends at the last
  element of \<open>T\<close>; a new session is started exactly when \<open>t\<close> minus that end exceeds
  the gap in milliseconds, and otherwise \<open>t\<close> is absorbed into the current (last)
  session, whose end becomes \<open>t\<close> and whose count grows by one. In particular a
  distance exactly equal to the gap is absorbed.
\<close>

theorem split_test_is_strict:
  assumes "T \<noteq> []"
  shows "s_end (last (analyze_sessions T G)) = last T
       \<and> analyze_sessions (T @ [t]) G =
           (if t - last T > G * 60 * 1000
            then analyze_sessions T G @ [\<lparr>s_start = t, s_end = t, s_requests = 1\<rparr>]
            else butlast (analyze_sessions T G) @
                 [(last (analyze_sessions T G))
                    \<lparr>s_end := t, s_requests := s_requests (last (analyze_sessions T G)) + 1\<rparr>])
       \<and> (t - last T = G * 60 * 1000 \<longrightarrow>
            analyze_sessions (T @ [t]) G =
              butlast (analyze_sessions T G) @
                 [(last (analyze_sessions T G))
                    \<lparr>s_end := t, s_requests := s_requests (last (analyze_sessions T G)) + 1\<rparr>])"
proof -
  obtain t0 ts where T: "T = t0 # ts"
    using assms by (cases T) auto
  let ?c = "\<lparr>s_start = t0, s_end = t0, s_requests = 1\<rparr>"
  have a: "analyze_sessions T G = flush (G * 60 * 1000) ts ?c"
    by (simp add: T analyze_sessions_Cons)
  have b: "analyze_sessions (T @ [t]) G = flush (G * 60 * 1000) (ts @ [t]) ?c"
    by (simp add: T analyze_sessions_Cons)
  have e: "s_end (last (analyze_sessions T G)) = last T"
    unfolding a by (simp add: flush_last_end T)
  have s: "analyze_sessions (T @ [t]) G =
           (if t - last T > G * 60 * 1000
            then analyze_sessions T G @ [\<lparr>s_start = t, s_end = t, s_requests = 1\<rparr>]
            else butlast (analyze_sessions T G) @
                 [(last (analyze_sessions T G))
                    \<lparr>s_end := t, s_requests := s_requests (last (analyze_sessions T G)) + 1\<rparr>])"
    unfolding e [symmetric] unfolding a b by (rule flush_snoc)
  show ?thesis
    using e s by simp
qed

theorem split_test_is_strict_witness:
  "[0::int] \<noteq> []
   \<and> analyze_sessions [0, 60000] 1 = [\<lparr>s_start = 0, s_end = 60000, s_requests = 2\<rparr>]
   \<and> analyze_sessions [0, 60001] 1 =
       [\<lparr>s_start = 0, s_end = 0, s_requests = 1\<rparr>, \<lparr>s_start = 60001, s_end = 60001, s_requests = 1\<rparr>]"
proof -
  have h: "[0::int] \<noteq> []"
    by simp
  have v: "analyze_sessions [0] 1 = [\<lparr>s_start = 0, s_end = 0, s_requests = 1\<rparr>]"
    by (simp add: analyze_sessions_def)
  have "analyze_sessions ([0] @ [60000]) 1 = [\<lparr>s_start = 0, s_end = 60000, s_requests = 2\<rparr>]"
    using split_test_is_strict [OF h, of 1 60000] by (simp add: v)
  moreover have "analyze_sessions ([0] @ [60001]) 1 =
       [\<lparr>s_start = 0, s_end = 0, s_requests = 1\<rparr>, \<lparr>s_start = 60001, s_end = 60001, s_requests = 1\<rparr>]"
    using split_test_is_strict [OF h, of 1 60001] by (simp add: v)
  ultimately show ?thesis
    by simp
qed

subsection \<open>Clustering again\<close>

text \<open>
  C4. Clustering is idempotent: concatenating, in session order, the member timestamps
  of the sessions of \<open>analyze_sessions T G\<close> and clustering the result with the same
  \<open>G\<close> gives the same list of sessions (same starts, ends and counts). The second
  conjunct says that the blocks of \<open>session_members\<close> are the members: each session
  starts at the first element of its block, ends at its last element and counts its
  length.
\<close>

theorem clustering_idempotent:
  "analyze_sessions (concat (session_members T (analyze_sessions T G))) G = analyze_sessions T G
   \<and> map session_of_members (session_members T (analyze_sessions T G)) = analyze_sessions T G"
proof (cases T)
  case Nil
  then show ?thesis by simp
next
  case (Cons t ts)
  let ?c = "\<lparr>s_start = t, s_end = t, s_requests = 1\<rparr>"
  have a: "analyze_sessions T G = flush (G * 60 * 1000) ts ?c"
    by (simp add: Cons analyze_sessions_Cons)
  have "\<forall>s \<in> set (analyze_sessions T G). 0 < s_requests s"
    unfolding a by (rule flush_requests_pos) simp
  then have "\<forall>s \<in> set (analyze_sessions T G). 0 \<le> s_requests s"
    by auto
  then have "concat (session_members T (analyze_sessions T G)) =
               take (nat (sum_list (map s_requests (analyze_sessions T G)))) T"
    by (rule concat_session_members)
  also have "\<dots> = T"
    unfolding a by (simp add: flush_requests Cons)
  finally have idem: "analyze_sessions (concat (session_members T (analyze_sessions T G))) G
                        = analyze_sessions T G"
    by simp
  have "map session_of_members (session_members ([t] @ ts) (flush (G * 60 * 1000) ts (session_of_members [t])))
          = flush (G * 60 * 1000) ts (session_of_members [t])"
    by (rule members_of_flush) simp
  then have "map session_of_members (session_members T (analyze_sessions T G)) = analyze_sessions T G"
    by (simp add: Cons analyze_sessions_Cons session_of_members_single)
  with idem show ?thesis
    by simp
qed

subsection \<open>Chained and separated inputs\<close>

text \<open>
  C6. If \<open>T\<close> is non-empty and non-decreasing and every two consecutive timestamps are
  at most the gap (in milliseconds) apart, \<open>analyze_sessions T G\<close> is a single session
  from the minimum to the maximum of \<open>T\<close> with \<open>len(T)\<close> requests. If every two
  consecutive timestamps are more than the gap apart, there are \<open>len(T)\<close> sessions, each
  with one request.
\<close>

theorem chained_one_session_separated_singletons:
  "(T \<noteq> [] \<and> sorted T \<and> (\<forall>i. Suc i < length T \<longrightarrow> T ! Suc i - T ! i \<le> G * 60 * 1000) \<longrightarrow>
      analyze_sessions T G =
        [\<lparr>s_start = Min (set T), s_end = Max (set T), s_requests = int (length T)\<rparr>])
   \<and> ((\<forall>i. Suc i < length T \<longrightarrow> T ! Suc i - T ! i > G * 60 * 1000) \<longrightarrow>
        length (analyze_sessions T G) = length T
        \<and> (\<forall>s \<in> set (analyze_sessions T G). s_requests s = 1))"
proof (intro conjI impI)
  assume h: "T \<noteq> [] \<and> sorted T \<and> (\<forall>i. Suc i < length T \<longrightarrow> T ! Suc i - T ! i \<le> G * 60 * 1000)"
  then obtain t ts where T: "T = t # ts"
    by (cases T) auto
  have "successively (\<lambda>a b. b - a \<le> G * 60 * 1000) T"
    using h by (simp add: successively_conv_nth)
  then have "flush (G * 60 * 1000) ts \<lparr>s_start = t, s_end = t, s_requests = 1\<rparr> =
               [\<lparr>s_start = t, s_end = last T, s_requests = 1 + int (length ts)\<rparr>]"
    using flush_chained [of "G * 60 * 1000" "\<lparr>s_start = t, s_end = t, s_requests = 1\<rparr>" ts]
    by (simp add: T)
  then have "analyze_sessions T G = [\<lparr>s_start = hd T, s_end = last T, s_requests = int (length T)\<rparr>]"
    by (simp add: T analyze_sessions_Cons)
  then show "analyze_sessions T G =
        [\<lparr>s_start = Min (set T), s_end = Max (set T), s_requests = int (length T)\<rparr>]"
    using h sorted_hd_Min [of T] sorted_last_Max [of T] by simp
next
  assume h: "\<forall>i. Suc i < length T \<longrightarrow> T ! Suc i - T ! i > G * 60 * 1000"
  have m: "analyze_sessions T G = map (\<lambda>t. \<lparr>s_start = t, s_end = t, s_requests = 1\<rparr>) T"
  proof (cases T)
    case Nil
    then show ?thesis by simp
  next
    case (Cons t ts)
    have "successively (\<lambda>a b. b - a > G * 60 * 1000) T"
      using h by (simp add: successively_conv_nth)
    then show ?thesis
      using flush_separated [of "G * 60 * 1000" "\<lparr>s_start = t, s_end = t, s_requests = 1\<rparr>" ts]
      by (simp add: Cons analyze_sessions_Cons)
  qed
  show "length (analyze_sessions T G) = length T"
    by (simp add: m)
  show "\<forall>s \<in> set (analyze_sessions T G). s_requests s = 1"
    by (auto simp: m)
qed

theorem chained_one_session_separated_singletons_witness:
  "analyze_sessions [1000, 2000, 3000] 99999 = [\<lparr>s_start = 1000, s_end = 3000, s_requests = 3\<rparr>]
   \<and> length (analyze_sessions [0, 60001, 120002] 1) = 3
   \<and> s_requests (analyze_sessions [0, 60001, 120002] 1 ! 1) = 1"
proof -
  let ?A = "[1000, 2000, 3000 :: int]"
  let ?B = "[0, 60001, 120002 :: int]"
  have "\<forall>i. Suc i < length ?A \<longrightarrow> ?A ! Suc i - ?A ! i \<le> 99999 * 60 * 1000"
    by (simp add: nth_Cons split: nat.split)
  then have "analyze_sessions ?A 99999 =
        [\<lparr>s_start = Min (set ?A), s_end = Max (set ?A), s_requests = int (length ?A)\<rparr>]"
    using chained_one_session_separated_singletons [of ?A 99999] by simp
  then have a: "analyze_sessions ?A 99999 = [\<lparr>s_start = 1000, s_end = 3000, s_requests = 3\<rparr>]"
    by simp
  have "\<forall>i. Suc i < length ?B \<longrightarrow> ?B ! Suc i - ?B ! i > 1 * 60 * 1000"
    by (simp add: nth_Cons split: nat.split)
  then have b: "length (analyze_sessions ?B 1) = length ?B
        \<and> (\<forall>s \<in> set (analyze_sessions ?B 1). s_requests s = 1)"
    using chained_one_session_separated_singletons [of ?B 1] by blast
  have "analyze_sessions ?B 1 ! 1 \<in> set (analyze_sessions ?B 1)"
    using b by simp
  then have "s_requests (analyze_sessions ?B 1 ! 1) = 1"
    using b by blast
  then show ?thesis
    using a b by simp
qed

subsection \<open>Inputs outside the documented precondition\<close>

text \<open>
  C9. \<open>analyze_sessions\<close> needs neither a sorted input nor a positive gap to return:
  for every list of integers \<open>T\<close> and every integer gap \<open>G\<close> (zero and negative ones
  included) the \<open>requests\<close> fields of the result sum to the length of \<open>T\<close>, and the
  result is empty exactly when \<open>T\<close> is. (The model is a total function: the only
  indexed read of the source, \<^verbatim>\<open>timestamps[0]\<close>, comes after the emptiness test, and
  the loop runs once per element of \<^verbatim>\<open>timestamps[1:]\<close>.)
\<close>

theorem analyze_sessions_total_count:
  "sum_list (map s_requests (analyze_sessions T G)) = int (length T)
   \<and> (analyze_sessions T G = [] \<longleftrightarrow> T = [])"
  by (cases T) (simp_all add: analyze_sessions_Cons flush_requests flush_not_Nil)

section \<open>Properties of the aggregation and of the report\<close>

subsection \<open>The loop over the sessions in closed form\<close>

lemma effective_duration_max:
  "effective_duration s = max (s_end s - s_start s) 300000"
  by (simp add: effective_duration_def Let_def max_def)

lemma session_body_eq:
  "session_body f st n i s (tw, dw, out) =
     (tw + effective_duration s,
      daily_add (day_key f st s) (effective_duration s) (s_requests s) dw,
      out @ session_lines f st n i s)"
  by (simp add: session_body_def Let_def day_key_def session_lines_def effective_duration_max)

lemma session_loop_eq:
  "session_loop f st n i ss (tw, dw, out) =
     (tw + sum_list (map effective_duration ss),
      fold (\<lambda>s. daily_add (day_key f st s) (effective_duration s) (s_requests s)) ss dw,
      out @ concat (map (\<lambda>(j, s). session_lines f st n j s) (zip [i..<i + length ss] ss)))"
proof (induction ss arbitrary: i tw dw out)
  case Nil
  show ?case by simp
next
  case (Cons s ss)
  have z: "zip [i..<i + length (s # ss)] (s # ss) = (i, s) # zip [Suc i..<Suc i + length ss] ss"
    by (simp add: upt_conv_Cons del: upt_Suc)
  show ?case
    unfolding z by (simp add: session_body_eq Cons.IH)
qed

lemma daily_add_time:
  "sum_list (map (d_time \<circ> snd) (daily_add k d r dw)) = sum_list (map (d_time \<circ> snd) dw) + d"
  by (induction dw) auto

lemma daily_add_sessions:
  "sum_list (map (d_sessions \<circ> snd) (daily_add k d r dw)) = sum_list (map (d_sessions \<circ> snd) dw) + 1"
  by (induction dw) auto

lemma daily_add_requests:
  "sum_list (map (d_requests \<circ> snd) (daily_add k d r dw)) = sum_list (map (d_requests \<circ> snd) dw) + r"
  by (induction dw) auto

lemma daily_add_keys:
  "map fst (daily_add k d r dw) = (if k \<in> set (map fst dw) then map fst dw else map fst dw @ [k])"
  by (induction dw) (force simp: image_iff)+

lemma daily_add_bucket:
  "day_bucket (daily_add k d r dw) k' =
     (if k' = k
      then \<lparr>d_time = d_time (day_bucket dw k) + d, d_sessions = d_sessions (day_bucket dw k) + 1,
            d_requests = d_requests (day_bucket dw k) + r\<rparr>
      else day_bucket dw k')"
  by (induction dw) (auto simp: day_bucket_def)

lemma fold_daily_time:
  "sum_list (map (d_time \<circ> snd) (fold (\<lambda>s. daily_add (key s) (dur s) (req s)) ss dw)) =
     sum_list (map (d_time \<circ> snd) dw) + sum_list (map dur ss)"
  by (induction ss arbitrary: dw) (simp_all add: daily_add_time)

lemma fold_daily_sessions:
  "sum_list (map (d_sessions \<circ> snd) (fold (\<lambda>s. daily_add (key s) (dur s) (req s)) ss dw)) =
     sum_list (map (d_sessions \<circ> snd) dw) + int (length ss)"
  by (induction ss arbitrary: dw) (simp_all add: daily_add_sessions)

lemma fold_daily_requests:
  "sum_list (map (d_requests \<circ> snd) (fold (\<lambda>s. daily_add (key s) (dur s) (req s)) ss dw)) =
     sum_list (map (d_requests \<circ> snd) dw) + sum_list (map req ss)"
  by (induction ss arbitrary: dw) (simp_all add: daily_add_requests)

lemma fold_daily_bucket:
  "day_bucket (fold (\<lambda>s. daily_add (key s) (dur s) (req s)) ss dw) k =
     \<lparr>d_time = d_time (day_bucket dw k) + sum_list (map dur (filter (\<lambda>s. key s = k) ss)),
      d_sessions = d_sessions (day_bucket dw k) + int (length (filter (\<lambda>s. key s = k) ss)),
      d_requests = d_requests (day_bucket dw k) + sum_list (map req (filter (\<lambda>s. key s = k) ss))\<rparr>"
proof (induction ss arbitrary: dw)
  case Nil
  show ?case by simp
next
  case (Cons s ss)
  show ?case
    by (simp add: Cons.IH daily_add_bucket)
qed

lemma fold_daily_keys:
  "distinct (map fst dw) \<Longrightarrow>
   distinct (map fst (fold (\<lambda>s. daily_add (key s) (dur s) (req s)) ss dw))
   \<and> set (map fst (fold (\<lambda>s. daily_add (key s) (dur s) (req s)) ss dw)) = set (map fst dw) \<union> key ` set ss"
proof (induction ss arbitrary: dw)
  case Nil
  then show ?case by simp
next
  case (Cons s ss)
  have d: "distinct (map fst (daily_add (key s) (dur s) (req s) dw))"
    using Cons.prems by (simp add: daily_add_keys)
  have k: "set (map fst (daily_add (key s) (dur s) (req s) dw)) = insert (key s) (set (map fst dw))"
    by (auto simp: daily_add_keys)
  show ?case
    using Cons.IH [OF d] k by auto
qed

lemma fold_daily_length:
  "length (fold (\<lambda>s. daily_add (key s) (dur s) (req s)) ss []) = card (key ` set ss)"
proof -
  let ?dw = "fold (\<lambda>s. daily_add (key s) (dur s) (req s)) ss []"
  have d: "distinct (map fst ?dw)" and s: "set (map fst ?dw) = key ` set ss"
    using fold_daily_keys [of "[]" key dur req ss] by simp_all
  have "card (set (map fst ?dw)) = length (map fst ?dw)"
    using d by (rule distinct_card)
  then show ?thesis
    using s by simp
qed

lemma analyze_burp_project_empty:
  "analyze_burp_project f st file [] gap =
     ([Banner (basename file), Extracting, No_timestamps_found], None)"
  by (simp add: analyze_burp_project_def)

lemma analyze_burp_project_nonempty:
  assumes "ts \<noteq> []"
  shows "analyze_burp_project f st file ts gap =
     ([Banner (basename file), Extracting, Found (int (length ts)),
       Time_range (st (ms_to_datetime f (hd ts)) ''%Y-%m-%d %H:%M:%S'')
                  (st (ms_to_datetime f (last ts)) ''%Y-%m-%d %H:%M:%S'')
                  (format_duration (last ts - hd ts)),
       Work_sessions gap (int (length (analyze_sessions ts gap))),
       Session_table_header]
      @ concat (map (\<lambda>(j, s). session_lines f st (length (analyze_sessions ts gap)) j s)
                    (zip [1..<1 + length (analyze_sessions ts gap)] (analyze_sessions ts gap)))
      @ [Summary (format_duration (sum_list (map effective_duration (analyze_sessions ts gap))))
                 (int (length (analyze_sessions ts gap)))
                 (format_duration (sum_list (map effective_duration (analyze_sessions ts gap))
                                     div max 1 (int (length (analyze_sessions ts gap)))))
                 (int (length ts)),
         Day_table_header]
      @ map (\<lambda>(day, d). Day_row day (format_duration (d_time d)) (d_sessions d) (d_requests d))
            (sort_key fst
               (fold (\<lambda>s. daily_add (day_key f st s) (effective_duration s) (s_requests s))
                     (analyze_sessions ts gap) []))
      @ [Total_row (format_duration (sum_list (map effective_duration (analyze_sessions ts gap))))
                   (int (length (analyze_sessions ts gap))) (int (length ts)),
         Estimated_time
           (float_truediv (sum_list (map effective_duration (analyze_sessions ts gap))) (1000 * 3600))
           (int (length (fold (\<lambda>s. daily_add (day_key f st s) (effective_duration s) (s_requests s))
                              (analyze_sessions ts gap) [])))],
      Some \<lparr>total_hours =
               float_truediv (sum_list (map effective_duration (analyze_sessions ts gap))) (1000 * 3600),
             total_days =
               int (length (fold (\<lambda>s. daily_add (day_key f st s) (effective_duration s) (s_requests s))
                                 (analyze_sessions ts gap) [])),
             sessions = int (length (analyze_sessions ts gap)),
             requests = int (length ts)\<rparr>)"
  using assms by (simp add: analyze_burp_project_def Let_def session_loop_eq)

lemma session_table_header_printed:
  "ts \<noteq> [] \<Longrightarrow> Session_table_header \<in> set (fst (analyze_burp_project f st file ts gap))"
  by (simp add: analyze_burp_project_nonempty)

subsection \<open>The five-minute floor\<close>

text \<open>
  C3. The effective duration of a session is \<open>max (end - start) 300000\<close> milliseconds,
  hence never below 300000, also for a session of a single timestamp, whose raw
  duration is 0. It is this value that the loop adds to \<^verbatim>\<open>total_work_time\<close>, that it
  adds to the \<^verbatim>\<open>time\<close> of the session's day, and that it formats in the duration column
  of the session's row (see \<open>session_lines\<close>).
\<close>

theorem effective_duration_floor:
  "effective_duration x = max (s_end x - s_start x) 300000
   \<and> 300000 \<le> effective_duration x
   \<and> effective_duration \<lparr>s_start = t, s_end = t, s_requests = 1\<rparr> = 300000
   \<and> session_loop f st n i ss (tw, dw, out) =
       (tw + sum_list (map (\<lambda>s. max (s_end s - s_start s) 300000) ss),
        fold (\<lambda>s. daily_add (day_key f st s) (max (s_end s - s_start s) 300000) (s_requests s)) ss dw,
        out @ concat (map (\<lambda>(j, s). session_lines f st n j s) (zip [i..<i + length ss] ss)))"
proof -
  have m: "effective_duration = (\<lambda>s. max (s_end s - s_start s) 300000)"
    by (rule ext) (rule effective_duration_max)
  have a: "effective_duration x = max (s_end x - s_start x) 300000"
    by (rule effective_duration_max)
  have b: "300000 \<le> effective_duration x"
    unfolding a by simp
  have c: "effective_duration \<lparr>s_start = t, s_end = t, s_requests = 1\<rparr> = 300000"
    by (simp add: effective_duration_max)
  have d: "session_loop f st n i ss (tw, dw, out) =
       (tw + sum_list (map (\<lambda>s. max (s_end s - s_start s) 300000) ss),
        fold (\<lambda>s. daily_add (day_key f st s) (max (s_end s - s_start s) 300000) (s_requests s)) ss dw,
        out @ concat (map (\<lambda>(j, s). session_lines f st n j s) (zip [i..<i + length ss] ss)))"
    using session_loop_eq [of f st n i ss tw dw out] unfolding m .
  show ?thesis
    using a b c d by blast
qed

subsection \<open>Daily totals\<close>

text \<open>
  C5. After the loop, started as \<^verbatim>\<open>analyze_burp_project\<close> starts it (total 0, empty
  \<^verbatim>\<open>daily_work\<close>), the \<^verbatim>\<open>time\<close> fields of all days sum to \<^verbatim>\<open>total_work_time\<close>, which is
  the sum of the effective durations of the sessions; the \<^verbatim>\<open>sessions\<close> fields of all
  days sum to the number of sessions; and each day holds exactly the effective durations
  and the number of the sessions whose start date it is, so each session is counted
  once, in the bucket of its start date.
\<close>

theorem daily_aggregation_sum_preserving:
  "sum_list (map (d_time \<circ> snd) (fst (snd (session_loop f st n i ss (0, [], out)))))
     = fst (session_loop f st n i ss (0, [], out))
   \<and> fst (session_loop f st n i ss (0, [], out)) = sum_list (map effective_duration ss)
   \<and> sum_list (map (d_sessions \<circ> snd) (fst (snd (session_loop f st n i ss (0, [], out)))))
     = int (length ss)
   \<and> (\<forall>day. d_time (day_bucket (fst (snd (session_loop f st n i ss (0, [], out)))) day)
            = sum_list (map effective_duration (filter (\<lambda>s. day_key f st s = day) ss)))
   \<and> (\<forall>day. d_sessions (day_bucket (fst (snd (session_loop f st n i ss (0, [], out)))) day)
            = int (length (filter (\<lambda>s. day_key f st s = day) ss)))"
proof -
  let ?dw = "fold (\<lambda>s. daily_add (day_key f st s) (effective_duration s) (s_requests s)) ss []"
  have l: "fst (snd (session_loop f st n i ss (0, [], out))) = ?dw"
    and t: "fst (session_loop f st n i ss (0, [], out)) = sum_list (map effective_duration ss)"
    by (simp_all add: session_loop_eq)
  have a: "sum_list (map (d_time \<circ> snd) ?dw) = sum_list (map effective_duration ss)"
    using fold_daily_time [of "day_key f st" effective_duration s_requests ss "[]"] by simp
  have b: "sum_list (map (d_sessions \<circ> snd) ?dw) = int (length ss)"
    using fold_daily_sessions [of "day_key f st" effective_duration s_requests ss "[]"] by simp
  have c: "d_time (day_bucket ?dw day)
            = sum_list (map effective_duration (filter (\<lambda>s. day_key f st s = day) ss))" for day
    using fold_daily_bucket [of "day_key f st" effective_duration s_requests ss "[]" day]
    by (simp add: day_bucket_def)
  have d: "d_sessions (day_bucket ?dw day)
            = int (length (filter (\<lambda>s. day_key f st s = day) ss))" for day
    using fold_daily_bucket [of "day_key f st" effective_duration s_requests ss "[]" day]
    by (simp add: day_bucket_def)
  show ?thesis
    unfolding l t using a b c d by simp
qed

subsection \<open>No timestamps\<close>

text \<open>
  C7. On the empty input \<open>analyze_sessions\<close> returns the empty list, and
  \<open>analyze_burp_project\<close> prints the banner, the extraction notice and the notice that no
  timestamps were found, and returns \<open>None\<close>. Lines of the session table or of the
  per-day table are printed exactly when there is a timestamp.
\<close>

theorem empty_input_is_no_data:
  "analyze_sessions [] G = []
   \<and> analyze_burp_project f st file [] gap =
       ([Banner (basename file), Extracting, No_timestamps_found], None)
   \<and> ((filter is_table_line (fst (analyze_burp_project f st file ts gap)) = []) = (ts = []))"
proof -
  have a: "analyze_burp_project f st file [] gap =
       ([Banner (basename file), Extracting, No_timestamps_found], None)"
    by (rule analyze_burp_project_empty)
  have b: "(filter is_table_line (fst (analyze_burp_project f st file ts gap)) = []) = (ts = [])"
  proof (cases "ts = []")
    case True
    then show ?thesis by (simp add: a)
  next
    case False
    have "Session_table_header \<in> set (fst (analyze_burp_project f st file ts gap))"
      using False by (rule session_table_header_printed)
    then have "Session_table_header
                 \<in> set (filter is_table_line (fst (analyze_burp_project f st file ts gap)))"
      by simp
    then have "filter is_table_line (fst (analyze_burp_project f st file ts gap)) \<noteq> []"
      by (metis empty_iff list.set(1))
    then show ?thesis using False by simp
  qed
  show ?thesis
    using a b by simp
qed

subsection \<open>The returned summary\<close>

text \<open>
  C10. \<open>analyze_burp_project\<close> returns \<open>None\<close> exactly when there are no timestamps;
  otherwise it returns the summary with the four fields \<open>total_hours\<close>, \<open>total_days\<close>
  (the number of distinct start dates), \<open>sessions\<close> and \<open>requests\<close>.
\<close>

theorem summary_only_with_timestamps:
  "((snd (analyze_burp_project f st file ts gap) = None) = (ts = []))
   \<and> snd (analyze_burp_project f st file ts gap) =
       (if ts = [] then None
        else Some \<lparr>total_hours =
                     float_truediv (sum_list (map effective_duration (analyze_sessions ts gap)))
                       (1000 * 3600),
                   total_days = int (card (day_key f st ` set (analyze_sessions ts gap))),
                   sessions = int (length (analyze_sessions ts gap)),
                   requests = int (length ts)\<rparr>)"
proof (cases "ts = []")
  case True
  then show ?thesis by (simp add: analyze_burp_project_empty)
next
  case False
  have "length (fold (\<lambda>s. daily_add (day_key f st s) (effective_duration s) (s_requests s))
                     (analyze_sessions ts gap) [])
          = card (day_key f st ` set (analyze_sessions ts gap))"
    by (rule fold_daily_length)
  then show ?thesis
    using False by (simp add: analyze_burp_project_nonempty)
qed

section \<open>Properties of the duration format\<close>

subsection \<open>Where rounding to a float is harmless\<close>

lemma floor_log2_less:
  assumes "0 < q" and "q < 2 ^ N" and "0 < N"
  shows "floor_log2 q < int N"
proof (cases "1 \<le> q")
  case True
  then have n: "0 < \<lfloor>q\<rfloor>"
    by simp
  have "(2::int) ^ nat (bitlen \<lfloor>q\<rfloor> - 1) \<le> \<lfloor>q\<rfloor>"
    using bitlen_bounds [OF n] by simp
  then have "(of_int ((2::int) ^ nat (bitlen \<lfloor>q\<rfloor> - 1)) :: rat) \<le> of_int \<lfloor>q\<rfloor>"
    by (simp only: of_int_le_iff)
  also have "\<dots> \<le> q"
    by simp
  also have "\<dots> < 2 ^ N"
    by (rule assms(2))
  finally have "(2::rat) ^ nat (bitlen \<lfloor>q\<rfloor> - 1) < 2 ^ N"
    by simp
  then have "nat (bitlen \<lfloor>q\<rfloor> - 1) < N"
    by simp
  then show ?thesis
    using True by (simp add: floor_log2_def)
next
  case False
  have "0 \<le> bitlen (\<lceil>1 / q\<rceil> - 1)"
    by (rule bitlen_nonneg)
  then show ?thesis
    using False assms(3) by (simp add: floor_log2_def)
qed

lemma round_half_even_of_int: "round_half_even (of_int n) = n"
  by (simp add: round_half_even_def)

lemma round_half_even_error: "\<bar>of_int (round_half_even x) - x\<bar> \<le> 1 / 2"
proof -
  have "of_int \<lfloor>x\<rfloor> \<le> x" and "x < of_int \<lfloor>x\<rfloor> + 1"
    by linarith+
  then show ?thesis
    by (auto simp: round_half_even_def Let_def)
qed

lemma fl_error:
  assumes "0 < q" and "floor_log2 q \<le> E"
  shows "\<bar>fl q - q\<bar> \<le> 2 powi (E - 53)"
proof -
  define e where "e = floor_log2 q - 52"
  define p :: rat where "p = 2 powi e"
  define m where "m = round_half_even (q / p)"
  have p: "0 < p"
    by (simp add: p_def)
  have f: "fl q = of_int m * p"
    using assms(1) by (simp add: fl_def Let_def e_def p_def m_def)
  have "\<bar>of_int m * p - q\<bar> = \<bar>of_int m - q / p\<bar> * p"
    using p by (simp add: abs_mult [symmetric] field_simps)
  also have "\<dots> \<le> (1 / 2) * p"
    using round_half_even_error [of "q / p"] p unfolding m_def
    by (intro mult_right_mono) simp_all
  also have "\<dots> = 2 powi (e - 1)"
    by (simp add: p_def power_int_diff)
  also have "\<dots> \<le> 2 powi (E - 53)"
    using assms(2) by (intro power_int_increasing) (simp_all add: e_def)
  finally show ?thesis
    by (simp add: f)
qed

lemma fl_of_int:
  assumes "0 \<le> n" and "n < 2 ^ 53"
  shows "fl (of_int n) = of_int n"
proof (cases "n = 0")
  case True
  then show ?thesis by (simp add: fl_def)
next
  case False
  then have n: "0 < n"
    using assms(1) by simp
  define e where "e = floor_log2 (of_int n) - 52"
  define k where "k = nat (- e)"
  have "(of_int n :: rat) < 2 ^ 53"
    using assms(2) by (metis of_int_less_iff of_int_numeral of_int_power)
  then have "floor_log2 (of_int n) < int 53"
    using n by (intro floor_log2_less) simp_all
  then have e: "e = - int k"
    by (simp add: e_def k_def)
  have p: "(2::rat) powi e = 1 / 2 ^ k"
    unfolding e by (simp add: power_int_minus field_simps)
  have "of_int n / ((2::rat) powi e) = of_int (n * 2 ^ k)"
    by (simp add: p)
  then have "round_half_even (of_int n / ((2::rat) powi e)) = n * 2 ^ k"
    by (simp only: round_half_even_of_int)
  then have "fl (of_int n) = of_int (n * 2 ^ k) * (2 powi e)"
    using n by (simp add: fl_def Let_def e_def)
  then show ?thesis
    by (simp add: p)
qed

subsection \<open>Floor division and remainder on a float close to an integer\<close>

lemma int_div_facts:
  fixes k n :: int
  assumes "0 < n"
  shows "n * (k div n) \<le> k" and "k + 1 \<le> n * (k div n) + n"
proof -
  have e: "k = n * (k div n) + k mod n"
    by simp
  have "0 \<le> k mod n" and "k mod n < n"
    using assms by simp_all
  then show "n * (k div n) \<le> k" and "k + 1 \<le> n * (k div n) + n"
    using e by linarith+
qed

lemma int_div_le_self:
  fixes k n :: int
  assumes "0 \<le> k" and "0 < n"
  shows "0 \<le> k div n" and "k div n \<le> k"
proof -
  show d0: "0 \<le> k div n"
    using assms by (simp add: pos_imp_zdiv_nonneg_iff)
  have "1 * (k div n) \<le> n * (k div n)"
    using assms(2) d0 by (intro mult_right_mono) simp_all
  then show "k div n \<le> k"
    using int_div_facts(1) [OF assms(2), of k] by simp
qed

lemma floor_divide_int:
  fixes s :: rat
  assumes "of_int k \<le> s" and "s < of_int k + 1" and "0 < n"
  shows "\<lfloor>s / of_int n\<rfloor> = k div n"
proof (rule floor_unique)
  have n: "(0::rat) < of_int n"
    using assms(3) by simp
  have "n * (k div n) \<le> k"
    using assms(3) by (rule int_div_facts)
  then have "(of_int (n * (k div n)) :: rat) \<le> of_int k"
    by (simp only: of_int_le_iff)
  then have "of_int n * of_int (k div n) \<le> s"
    using assms(1) by simp
  then show "of_int (k div n) \<le> s / of_int n"
    using n by (simp add: field_simps)
  have "k + 1 \<le> n * (k div n) + n"
    using assms(3) by (rule int_div_facts)
  then have "(of_int (k + 1) :: rat) \<le> of_int (n * (k div n) + n)"
    by (simp only: of_int_le_iff)
  then have "s < of_int n * of_int (k div n) + of_int n"
    using assms(2) by simp
  then show "s / of_int n < of_int (k div n) + 1"
    using n by (simp add: field_simps)
qed

lemma fmod_nonneg:
  fixes s :: rat
  assumes "of_int k \<le> s" and "s < of_int k + 1" and "0 \<le> k" and "0 < n"
  shows "fmod s (of_int n) = s - of_int (n * (k div n))"
proof -
  have "0 \<le> s"
    using assms(1,3) by (meson of_int_0_le_iff order_trans)
  then have "0 \<le> s / of_int n"
    using assms(4) by simp
  then show ?thesis
    using floor_divide_int [OF assms(1,2,4)] by (simp add: fmod_def Let_def)
qed

lemma fmod_bounds:
  fixes s :: rat
  assumes "of_int k \<le> s" and "s < of_int k + 1" and "0 < n"
  shows "of_int (k mod n) \<le> s - of_int (n * (k div n))"
    and "s - of_int (n * (k div n)) < of_int (k mod n) + 1"
proof -
  have "k = n * (k div n) + k mod n"
    by simp
  then have "(of_int k :: rat) = of_int (n * (k div n) + k mod n)"
    by simp
  then have "(of_int k :: rat) = of_int (n * (k div n)) + of_int (k mod n)"
    by (simp only: of_int_add)
  then show "of_int (k mod n) \<le> s - of_int (n * (k div n))"
    and "s - of_int (n * (k div n)) < of_int (k mod n) + 1"
    using assms(1,2) by linarith+
qed

lemma float_rem_exact:
  fixes s :: rat
  assumes "of_int k \<le> s" and "s < of_int k + 1" and "0 \<le> k" and "0 < n"
  shows "float_rem s (of_int n) = s - of_int (n * (k div n))"
proof -
  have "0 \<le> k mod n"
    using assms(4) by simp
  then have "(0::rat) \<le> of_int (k mod n)"
    by simp
  then have "0 \<le> s - of_int (n * (k div n))"
    using fmod_bounds(1) [OF assms(1,2,4)] by linarith
  then show ?thesis
    using assms(4) by (simp add: float_rem_def Let_def fmod_nonneg [OF assms])
qed

lemma float_floordiv_exact:
  fixes s :: rat
  assumes "of_int k \<le> s" and "s < of_int k + 1" and "0 \<le> k" and "k < 2 ^ 53" and "0 < n"
  shows "float_floordiv s (of_int n) = of_int (k div n)"
proof -
  have m: "fmod s (of_int n) = s - of_int (n * (k div n))"
    using assms(1,2,3,5) by (rule fmod_nonneg)
  have "0 \<le> k mod n"
    using assms(5) by simp
  then have "(0::rat) \<le> of_int (k mod n)"
    by simp
  then have pos: "\<not> s - of_int (n * (k div n)) < 0"
    using fmod_bounds(1) [OF assms(1,2,5)] by linarith
  have d0: "0 \<le> k div n" and d1: "k div n \<le> k"
    using assms(3,5) by (rule int_div_le_self)+
  have "n * (k div n) \<le> k"
    using assms(5) by (rule int_div_facts)
  then have "fl (of_int (n * (k div n))) = of_int (n * (k div n))"
    using assms(4,5) d0 by (intro fl_of_int) simp_all
  moreover have "of_int (n * (k div n)) / (of_int n :: rat) = of_int (k div n)"
    using assms(5) by simp
  moreover have "fl (of_int (k div n)) = of_int (k div n)"
    using assms(4) d0 d1 by (intro fl_of_int) simp_all
  ultimately have q: "fl (fl (s - fmod s (of_int n)) / of_int n) = of_int (k div n)"
    by (simp add: m)
  have z: "fl 0 = 0"
    by (simp add: fl_def)
  have c: "(fmod s (of_int n) \<noteq> 0 \<and> (((of_int n :: rat) < 0) \<noteq> (fmod s (of_int n) < 0))) = False"
    using assms(5) pos by (simp add: m)
  show ?thesis
    unfolding float_floordiv_def Let_def q c by (simp add: z)
qed

subsection \<open>The seconds of a duration\<close>

lemma seconds_bounds:
  assumes "0 \<le> ms" and "ms < 1000 * 2 ^ 44"
  shows "of_int (ms div 1000) \<le> float_truediv ms 1000"
    and "float_truediv ms 1000 < of_int (ms div 1000) + 1"
proof -
  define k where "k = ms div 1000"
  define r where "r = ms mod 1000"
  define q :: rat where "q = of_int ms / of_int 1000"
  have e: "ms = 1000 * k + r"
    by (simp add: k_def r_def)
  have r: "0 \<le> r" "r < 1000"
    by (simp_all add: r_def)
  have k0: "0 \<le> k"
    using assms(1) by (simp add: k_def pos_imp_zdiv_nonneg_iff)
  have k: "k < 2 ^ 44"
    using assms(2) e r by simp
  have "(of_int ms :: rat) = 1000 * of_int k + of_int r"
    unfolding e by simp
  then have q: "q = of_int k + of_int r / 1000"
    by (simp add: q_def field_simps)
  have f: "float_truediv ms 1000 = fl q"
    by (simp add: float_truediv_def q_def)
  have "of_int k \<le> fl q \<and> fl q < of_int k + 1"
  proof (cases "r = 0")
    case True
    have "fl (of_int k) = of_int k"
      using k0 k by (intro fl_of_int) simp_all
    then show ?thesis
      using True by (simp add: q)
  next
    case False
    then have r1: "1 \<le> r" "r \<le> 999"
      using r by simp_all
    have lo: "(1::rat) / 1000 \<le> of_int r / 1000"
      using r1(1) by simp
    have "(of_int r :: rat) \<le> of_int 999"
      using r1(2) by (simp only: of_int_le_iff)
    then have hi: "(of_int r :: rat) / 1000 \<le> 999 / 1000"
      by simp
    have k0': "(0::rat) \<le> of_int k"
      using k0 by simp
    have "k + 1 \<le> 2 ^ 44"
      using k by simp
    then have "(of_int (k + 1) :: rat) \<le> of_int (2 ^ 44)"
      by (simp only: of_int_le_iff)
    then have k': "(of_int k :: rat) + 1 \<le> 2 ^ 44"
      by simp
    have qpos: "0 < q"
      unfolding q using k0' lo by linarith
    have "q < 2 ^ 44"
      unfolding q using k' hi by linarith
    then have "floor_log2 q < int 44"
      using qpos by (intro floor_log2_less) simp_all
    then have "floor_log2 q \<le> 43"
      by simp
    then have "\<bar>fl q - q\<bar> \<le> 2 powi (43 - 53)"
      using qpos by (intro fl_error)
    then have "\<bar>fl q - q\<bar> \<le> 1 / 1024"
      by simp
    then show ?thesis
      unfolding q using lo hi by linarith
  qed
  then show "of_int (ms div 1000) \<le> float_truediv ms 1000"
    and "float_truediv ms 1000 < of_int (ms div 1000) + 1"
    by (simp_all add: f k_def)
qed

lemma ms_div_hours: "(ms::int) div 1000 div 3600 = ms div 3600000"
  using zdiv_zmult2_eq [of 3600 ms 1000] by simp

lemma ms_div_minutes: "(ms::int) div 1000 div 60 = ms div 60000"
  using zdiv_zmult2_eq [of 60 ms 1000] by simp

lemma div_1000_cancel:
  fixes a r :: int
  assumes "0 \<le> r" and "r < 1000"
  shows "(1000 * a + r) div 1000 = a"
  using assms by simp

lemma ms_mod_hour_minutes: "(ms::int) mod 3600000 div 60000 = ms div 1000 mod 3600 div 60"
proof -
  have "ms mod 3600000 = 1000 * (ms div 1000 mod 3600) + ms mod 1000"
    using zmod_zmult2_eq [of 3600 ms 1000] by simp
  moreover have "(1000 * (ms div 1000 mod 3600) + ms mod 1000) div 1000 = ms div 1000 mod 3600"
    by (rule div_1000_cancel) simp_all
  ultimately have "ms mod 3600000 div 1000 = ms div 1000 mod 3600"
    by simp
  then show ?thesis
    using ms_div_minutes [of "ms mod 3600000"] by simp
qed

lemma ms_mod_minute_seconds: "(ms::int) mod 60000 div 1000 = ms div 1000 mod 60"
proof -
  have "ms mod 60000 = 1000 * (ms div 1000 mod 60) + ms mod 1000"
    using zmod_zmult2_eq [of 60 ms 1000] by simp
  moreover have "(1000 * (ms div 1000 mod 60) + ms mod 1000) div 1000 = ms div 1000 mod 60"
    by (rule div_1000_cancel) simp_all
  ultimately show ?thesis
    by simp
qed

lemma hours_pos: "(0 < (ms::int) div 3600000) = (3600000 \<le> ms)"
  by (simp add: pos_imp_zdiv_pos_iff)

lemma minutes_pos: "(0 < (ms::int) div 60000) = (60000 \<le> ms)"
  by (simp add: pos_imp_zdiv_pos_iff)

lemma below_hour:
  assumes "0 \<le> (ms::int)" and "ms < 3600000"
  shows "ms div 1000 mod 3600 div 60 = ms div 60000"
proof -
  have "ms div 1000 < 3600"
    using assms(2) by simp
  moreover have "0 \<le> ms div 1000"
    using assms(1) by (simp add: pos_imp_zdiv_nonneg_iff)
  ultimately have "ms div 1000 mod 3600 = ms div 1000"
    by simp
  then show ?thesis
    by (simp add: ms_div_minutes)
qed

lemma below_minute:
  assumes "0 \<le> (ms::int)" and "ms < 60000"
  shows "ms div 1000 mod 60 = ms div 1000"
proof -
  have "ms div 1000 < 60"
    using assms(2) by simp
  moreover have "0 \<le> ms div 1000"
    using assms(1) by (simp add: pos_imp_zdiv_nonneg_iff)
  ultimately show ?thesis
    by simp
qed

lemma format_duration_parts:
  assumes "0 \<le> ms" and "ms < 1000 * 2 ^ 44"
  shows "int_of_float (float_floordiv (float_truediv ms 1000) 3600) = ms div 1000 div 3600"
    and "int_of_float (float_floordiv (float_rem (float_truediv ms 1000) 3600) 60)
           = ms div 1000 mod 3600 div 60"
    and "int_of_float (float_rem (float_truediv ms 1000) 60) = ms div 1000 mod 60"
proof -
  define k where "k = ms div 1000"
  define s where "s = float_truediv ms 1000"
  have lo: "of_int k \<le> s" and hi: "s < of_int k + 1"
    unfolding k_def s_def using assms by (rule seconds_bounds)+
  have k0: "0 \<le> k"
    using assms(1) by (simp add: k_def pos_imp_zdiv_nonneg_iff)
  have "k < 2 ^ 44"
    using assms(2) by (simp add: k_def)
  then have k: "k < 2 ^ 53"
    by simp
  have h: "float_floordiv s (of_int 3600) = of_int (k div 3600)"
    using lo hi k0 k by (rule float_floordiv_exact) simp
  have h0: "0 \<le> k div 3600"
    using k0 by (simp add: pos_imp_zdiv_nonneg_iff)
  show "int_of_float (float_floordiv (float_truediv ms 1000) 3600) = ms div 1000 div 3600"
    using h h0 by (simp add: s_def [symmetric] k_def [symmetric] int_of_float_def)
  have r: "float_rem s (of_int 3600) = s - of_int (3600 * (k div 3600))"
    using lo hi k0 by (rule float_rem_exact) simp
  have rlo: "of_int (k mod 3600) \<le> float_rem s (of_int 3600)"
    and rhi: "float_rem s (of_int 3600) < of_int (k mod 3600) + 1"
    unfolding r using fmod_bounds [OF lo hi, of 3600] by simp_all
  have m0: "0 \<le> k mod 3600" and m1: "k mod 3600 < 2 ^ 53"
    by simp_all
  have m: "float_floordiv (float_rem s (of_int 3600)) (of_int 60) = of_int (k mod 3600 div 60)"
    using rlo rhi m0 m1 by (rule float_floordiv_exact) simp
  have "0 \<le> k mod 3600 div 60"
    by (simp add: pos_imp_zdiv_nonneg_iff)
  then show "int_of_float (float_floordiv (float_rem (float_truediv ms 1000) 3600) 60)
           = ms div 1000 mod 3600 div 60"
    using m by (simp add: s_def [symmetric] k_def [symmetric] int_of_float_def)
  have c: "float_rem s (of_int 60) = s - of_int (60 * (k div 60))"
    using lo hi k0 by (rule float_rem_exact) simp
  have clo: "of_int (k mod 60) \<le> float_rem s (of_int 60)"
    and chi: "float_rem s (of_int 60) < of_int (k mod 60) + 1"
    unfolding c using fmod_bounds [OF lo hi, of 60] by simp_all
  have "(0::rat) \<le> of_int (k mod 60)"
    by simp
  then have "0 \<le> float_rem s (of_int 60)"
    using clo by linarith
  moreover have "\<lfloor>float_rem s (of_int 60)\<rfloor> = k mod 60"
    using clo chi by (rule floor_unique)
  ultimately show "int_of_float (float_rem (float_truediv ms 1000) 60) = ms div 1000 mod 60"
    by (simp add: s_def [symmetric] k_def [symmetric] int_of_float_def)
qed

lemma format_duration_truncates:
  assumes "0 \<le> ms" and "ms < 1000 * 2 ^ 44"
  shows "format_duration ms = format_truncated ms"
proof -
  note p = format_duration_parts [OF assms]
  have n: "\<not> ms < 0"
    using assms(1) by simp
  show ?thesis
  proof (cases "3600000 \<le> ms")
    case True
    then have "0 < ms div 1000 div 3600"
      by (simp add: ms_div_hours hours_pos)
    then show ?thesis
      using n True
      by (simp add: format_duration_def format_truncated_def Let_def p
                    ms_div_hours ms_mod_hour_minutes)
  next
    case False
    then have h: "\<not> 0 < ms div 1000 div 3600"
      by (simp add: ms_div_hours hours_pos)
    have m: "ms div 1000 mod 3600 div 60 = ms div 60000"
      using assms(1) False by (intro below_hour) simp_all
    show ?thesis
    proof (cases "60000 \<le> ms")
      case True
      then have "0 < ms div 60000"
        by (simp add: minutes_pos)
      then show ?thesis
        using n False True h
        by (simp add: format_duration_def format_truncated_def Let_def p m ms_mod_minute_seconds
                      ms_div_minutes)
    next
      case False
      then have "\<not> 0 < ms div 60000"
        by (simp add: minutes_pos)
      moreover have "ms div 1000 mod 60 = ms div 1000"
        using assms(1) False by (intro below_minute) simp_all
      ultimately show ?thesis
        using n \<open>\<not> 3600000 \<le> ms\<close> False h
        by (simp add: format_duration_def format_truncated_def Let_def p m ms_div_minutes)
    qed
  qed
qed

subsection \<open>The three forms\<close>

text \<open>
  The float operations at 17592186044459999 milliseconds, evaluated.
\<close>

lemma seconds_rounded_up: "float_truediv 17592186044459999 1000 = 17592186044460"
  by code_simp

lemma hours_of_rounded: "float_floordiv 17592186044460 3600 = 4886718345"
  by code_simp

lemma rest_of_rounded: "float_rem 17592186044460 3600 = 2460"
  by code_simp

lemma minutes_of_rounded: "float_floordiv 2460 60 = 41"
  by code_simp

text \<open>
  C8, as stated, says that every non-negative number of milliseconds is formatted by
  integer truncation. The division \<^verbatim>\<open>ms / 1000\<close> is a float division, and from
  \<open>2^44\<close> seconds on a float cannot tell \<open>n - 0.001\<close> from \<open>n\<close>: for 17592186044459999
  milliseconds (4886718345 hours, 40 minutes and 59.999 seconds) the quotient is
  rounded up to 17592186044460 seconds and the text shows 41 minutes.
\<close>

theorem format_duration_rounds_up:
  "format_duration 17592186044459999 = ''4886718345h 41m''
   \<and> format_truncated 17592186044459999 = ''4886718345h 40m''
   \<and> format_duration 17592186044459999 \<noteq> format_truncated 17592186044459999"
proof -
  have a: "format_duration 17592186044459999 = ''4886718345h 41m''"
    by (simp add: format_duration_def Let_def seconds_rounded_up hours_of_rounded
                  rest_of_rounded minutes_of_rounded int_of_float_def str_int_def str_nat.simps)
  have b: "format_truncated 17592186044459999 = ''4886718345h 40m''"
    by (simp add: format_truncated_def str_int_def str_nat.simps)
  show ?thesis
    unfolding a b by simp
qed

text \<open>
  C8, amended. \<open>format_duration\<close> gives the zero label \<open>0s\<close> for every negative input. For
  every \<open>ms\<close> with \<open>0 \<le> ms < 1000 * 2^44\<close> (17592186044416000 milliseconds, more than
  half a million years) it gives exactly the text of the specification: hours and minutes
  from one hour on (the minutes also when they are zero), minutes and seconds below one
  hour and from one minute on, seconds only below one minute, every component truncated.
  In particular 3661000 gives \<open>1h 1m\<close>, 61000 gives \<open>1m 1s\<close>, 5000 gives \<open>5s\<close> and -100
  gives \<open>0s\<close>.
\<close>

theorem format_duration_forms:
  "(ms < 0 \<longrightarrow> format_duration ms = ''0s'')
   \<and> (0 \<le> ms \<and> ms < 1000 * 2 ^ 44 \<longrightarrow> format_duration ms = format_truncated ms)
   \<and> format_duration 3661000 = ''1h 1m''
   \<and> format_duration 61000 = ''1m 1s''
   \<and> format_duration 5000 = ''5s''
   \<and> format_duration (- 100) = ''0s''"
proof -
  have n: "format_duration ms = ''0s''" if "ms < 0"
    using that by (simp add: format_duration_def)
  have t: "format_duration ms = format_truncated ms" if "0 \<le> ms \<and> ms < 1000 * 2 ^ 44"
    using that by (intro format_duration_truncates) simp_all
  have "format_duration 3661000 = format_truncated 3661000"
    by (rule format_duration_truncates) simp_all
  then have e1: "format_duration 3661000 = ''1h 1m''"
    by (simp add: format_truncated_def str_int_def str_nat.simps)
  have "format_duration 61000 = format_truncated 61000"
    by (rule format_duration_truncates) simp_all
  then have e2: "format_duration 61000 = ''1m 1s''"
    by (simp add: format_truncated_def str_int_def str_nat.simps)
  have "format_duration 5000 = format_truncated 5000"
    by (rule format_duration_truncates) simp_all
  then have e3: "format_duration 5000 = ''5s''"
    by (simp add: format_truncated_def str_int_def str_nat.simps)
  have e4: "format_duration (- 100) = ''0s''"
    by (simp add: format_duration_def)
  show ?thesis
    using n t e1 e2 e3 e4 by blast
qed

theorem format_duration_forms_witness:
  "(- 100 :: int) < 0 \<and> format_duration (- 100) = ''0s''
   \<and> (0::int) \<le> 3600000 \<and> (3600000::int) < 1000 * 2 ^ 44
   \<and> format_duration 3600000 = ''1h 0m''
   \<and> format_duration 59999 = ''59s''"
proof -
  have h1: "(- 100 :: int) < 0"
    by simp
  have h2: "(0::int) \<le> 3600000 \<and> (3600000::int) < 1000 * 2 ^ 44"
    by simp
  have h3: "(0::int) \<le> 59999 \<and> (59999::int) < 1000 * 2 ^ 44"
    by simp
  have a: "format_duration (- 100) = ''0s''"
    using format_duration_forms [of "- 100"] h1 by blast
  have "format_duration 3600000 = format_truncated 3600000"
    using format_duration_forms [of 3600000] h2 by blast
  then have b: "format_duration 3600000 = ''1h 0m''"
    by (simp add: format_truncated_def str_int_def str_nat.simps)
  have "format_duration 59999 = format_truncated 59999"
    using format_duration_forms [of 59999] h3 by blast
  then have c: "format_duration 59999 = ''59s''"
    by (simp add: format_truncated_def str_int_def str_nat.simps)
  show ?thesis
    using h1 h2 a b c by simp
qed

end
